theory Spec2Isabelle
  imports Main
begin

section \<open>The polling wait of the flaky-test guide\<close>

text \<open>
  The guide \<^verbatim>\<open>.circleci/fix-flaky-test.md\<close> (lines 90 to 99) waits for Open MCT with
  \<^verbatim>\<open>
  await new Promise(resolve => {
    const checkInitialization = () => {
      if (openmct.components && openmct.components.ObjectView) {
        resolve();
      } else {
        setTimeout(checkInitialization, 50);
      }
    };
    checkInitialization();
  });
  \<close>
  The condition reads the variable \<open>openmct\<close>, which the application under test changes
  while the waiter sleeps. The delay is the literal 50; the snippet has no deadline, no
  cancellation signal and no \<open>try\<close>.
\<close>

subsection \<open>JavaScript values\<close>

text \<open>
  The values the condition can meet. Numbers are restricted to the integers; an object is the
  list of its own data properties.
\<close>

datatype jsval =
    JUndefined
  | JNull
  | JBool bool
  | JNum int
  | JStr string
  | JObj "(string \<times> jsval) list"

datatype error = TypeError | ReferenceError

text \<open>
  The variables in scope, by name. A variable that is declared and not yet assigned
  (\<open>let openmct;\<close> in \<^verbatim>\<open>FlakyTestsSpec.js\<close>) holds \<open>undefined\<close>; reading a name
  that is not declared throws a \<open>ReferenceError\<close>.
\<close>

type_synonym scope = "string \<rightharpoonup> jsval"

definition get_var :: "scope \<Rightarrow> string \<Rightarrow> error + jsval" where
  "get_var sc x = (case sc x of None \<Rightarrow> Inl ReferenceError | Some v \<Rightarrow> Inr v)"

text \<open>\<open>ToBoolean\<close>: what \<open>if\<close> and \<open>&&\<close> test.\<close>

fun truthy :: "jsval \<Rightarrow> bool" where
  "truthy JUndefined = False"
| "truthy JNull = False"
| "truthy (JBool b) = b"
| "truthy (JNum n) = (n \<noteq> 0)"
| "truthy (JStr s) = (s \<noteq> [])"
| "truthy (JObj ps) = True"

text \<open>
  Reading a property \<open>v.k\<close>: a \<open>TypeError\<close> on \<open>undefined\<close> and \<open>null\<close>, the stored
  value or \<open>undefined\<close> on an object, \<open>undefined\<close> on the other primitives (neither
  \<open>components\<close> nor \<open>ObjectView\<close> is a property of a built-in prototype).
\<close>

fun get_prop :: "jsval \<Rightarrow> string \<Rightarrow> error + jsval" where
  "get_prop JUndefined k = Inl TypeError"
| "get_prop JNull k = Inl TypeError"
| "get_prop (JObj ps) k = Inr (case map_of ps k of None \<Rightarrow> JUndefined | Some v \<Rightarrow> v)"
| "get_prop v k = Inr JUndefined"

text \<open>An exception ends the evaluation of an expression at the operand that throws.\<close>

fun and_then :: "error + 'a \<Rightarrow> ('a \<Rightarrow> error + 'b) \<Rightarrow> error + 'b" where
  "and_then (Inl e) f = Inl e"
| "and_then (Inr v) f = f v"

text \<open>The expression \<open>openmct.components\<close>.\<close>

definition openmct_components :: "scope \<Rightarrow> error + jsval" where
  "openmct_components sc = and_then (get_var sc ''openmct'') (\<lambda>om. get_prop om ''components'')"

text \<open>
  The test of the \<open>if\<close>: \<open>openmct.components && openmct.components.ObjectView\<close>. The right
  operand is evaluated only when the left one is truthy, and reads \<open>openmct.components\<close>
  again; the \<open>if\<close> takes the branch by \<open>ToBoolean\<close> of the result.
\<close>

definition condition :: "scope \<Rightarrow> error + bool" where
  "condition sc =
     and_then (openmct_components sc) (\<lambda>c.
       if truthy c then
         and_then (openmct_components sc) (\<lambda>c'.
           and_then (get_prop c' ''ObjectView'') (\<lambda>v. Inr (truthy v)))
       else Inr False)"

subsection \<open>The promise, the timers and the callback\<close>

datatype promise_state = Pending | Fulfilled | Rejected error

datatype completion = Normal | Throw error

text \<open>
  The state the snippet runs in: the variables in scope, the clock in milliseconds since
  the \<open>await\<close>, the promise being awaited, the due times of the timers set for
  \<open>checkInitialization\<close> (the only callback the snippet schedules), and the errors that
  escaped a timer callback. \<open>evals\<close> counts the evaluations of the condition.
\<close>

record state =
  vars :: scope
  now :: nat
  promise :: promise_state
  timers :: "nat list"
  evals :: nat
  uncaught :: "error list"

text \<open>A promise is settled once: \<open>resolve\<close> and \<open>reject\<close> do nothing to a settled one.\<close>

definition resolve :: "state \<Rightarrow> state" where
  "resolve s = (if promise s = Pending then s\<lparr>promise := Fulfilled\<rparr> else s)"

definition reject :: "error \<Rightarrow> state \<Rightarrow> state" where
  "reject e s = (if promise s = Pending then s\<lparr>promise := Rejected e\<rparr> else s)"

text \<open>\<open>setTimeout(checkInitialization, delay)\<close>; the timer id it returns is dropped.\<close>

definition setTimeout :: "nat \<Rightarrow> state \<Rightarrow> state" where
  "setTimeout delay s = s\<lparr>timers := timers s @ [now s + delay]\<rparr>"

definition checkInitialization :: "state \<Rightarrow> completion \<times> state" where
  "checkInitialization s =
     (let s1 = s\<lparr>evals := evals s + 1\<rparr> in
      case condition (vars s) of
        Inl e \<Rightarrow> (Throw e, s1)
      | Inr True \<Rightarrow> (Normal, resolve s1)
      | Inr False \<Rightarrow> (Normal, setTimeout 50 s1))"

text \<open>
  \<open>new Promise(executor)\<close> runs the executor at once; the executor calls
  \<open>checkInitialization\<close>, and an exception thrown by the executor rejects the promise.
\<close>

definition new_Promise :: "state \<Rightarrow> state" where
  "new_Promise s =
     (case checkInitialization (s\<lparr>promise := Pending\<rparr>) of
        (Normal, s') \<Rightarrow> s'
      | (Throw e, s') \<Rightarrow> reject e s')"

text \<open>
  The environment is the content of the variables at each millisecond, \<open>world t\<close>: the
  application under test and the rest of the test change them while the waiter sleeps. The
  wait starts at time 0 with no timer set.
\<close>

definition initial :: "(nat \<Rightarrow> scope) \<Rightarrow> state" where
  "initial world =
     \<lparr>vars = world 0, now = 0, promise = Pending, timers = [], evals = 0, uncaught = []\<rparr>"

definition start :: "(nat \<Rightarrow> scope) \<Rightarrow> state" where
  "start world = new_Promise (initial world)"

text \<open>
  One turn of the event loop: with no timer set nothing happens; otherwise the clock moves to
  the due time of the first timer (a timer is taken to fire exactly when due), the variables
  are what the environment made of them, and the callback runs. An exception thrown by a timer
  callback is not seen by the promise: it is reported as uncaught.
\<close>

definition timer_event :: "(nat \<Rightarrow> scope) \<Rightarrow> state \<Rightarrow> state" where
  "timer_event world s =
     (case timers s of
        [] \<Rightarrow> s
      | due # rest \<Rightarrow>
          (case checkInitialization (s\<lparr>timers := rest, now := due, vars := world due\<rparr>) of
             (Normal, s') \<Rightarrow> s'
           | (Throw e, s') \<Rightarrow> s'\<lparr>uncaught := uncaught s' @ [e]\<rparr>))"

text \<open>
  \<open>await\<close>: the caller continues with the state in which the promise is settled. While the
  promise is pending the event loop turns; a pending promise with no timer left is never
  settled, and a loop that turns for ever has no result either: both are \<open>None\<close>.
\<close>

partial_function (option) await_promise :: "(nat \<Rightarrow> scope) \<Rightarrow> state \<Rightarrow> state option" where
  "await_promise world s =
     (if promise s \<noteq> Pending then Some s
      else if timers s = [] then None
      else await_promise world (timer_event world s))"

declare await_promise.simps [code]

definition wait :: "(nat \<Rightarrow> scope) \<Rightarrow> state option" where
  "wait world = await_promise world (start world)"

text \<open>The state after \<open>n\<close> turns of the event loop.\<close>

fun turns :: "(nat \<Rightarrow> scope) \<Rightarrow> nat \<Rightarrow> state \<Rightarrow> state" where
  "turns world 0 s = s"
| "turns world (Suc n) s = turns world n (timer_event world s)"

subsection \<open>The polls of a run\<close>

text \<open>
  The first evaluation is at time 0 and every timer is set 50 ms after the evaluation that
  set it, so the evaluation number \<open>k\<close> (counted from 0) is at \<open>50 * k\<close> ms;
  \<open>seen world k\<close> is what it finds.
\<close>

definition poll_time :: "nat \<Rightarrow> nat" where
  "poll_time k = 50 * k"

definition seen :: "(nat \<Rightarrow> scope) \<Rightarrow> nat \<Rightarrow> error + bool" where
  "seen world k = condition (world (poll_time k))"

text \<open>
  The four shapes of a state of the wait: the evaluation number \<open>k\<close> was false and set
  the next timer; it was true and resolved the promise; it threw inside a timer callback;
  the first one threw inside the executor.
\<close>

definition polling :: "(nat \<Rightarrow> scope) \<Rightarrow> nat \<Rightarrow> state" where
  "polling world k =
     \<lparr>vars = world (poll_time k), now = poll_time k, promise = Pending,
      timers = [poll_time k + 50], evals = k + 1, uncaught = []\<rparr>"

definition satisfied :: "(nat \<Rightarrow> scope) \<Rightarrow> nat \<Rightarrow> state" where
  "satisfied world k =
     \<lparr>vars = world (poll_time k), now = poll_time k, promise = Fulfilled, timers = [],
      evals = k + 1, uncaught = []\<rparr>"

definition stranded :: "(nat \<Rightarrow> scope) \<Rightarrow> nat \<Rightarrow> error \<Rightarrow> state" where
  "stranded world k e =
     \<lparr>vars = world (poll_time k), now = poll_time k, promise = Pending, timers = [],
      evals = k + 1, uncaught = [e]\<rparr>"

definition rejected :: "(nat \<Rightarrow> scope) \<Rightarrow> error \<Rightarrow> state" where
  "rejected world e =
     \<lparr>vars = world 0, now = 0, promise = Rejected e, timers = [],
      evals = 1, uncaught = []\<rparr>"

subsection \<open>Some environments\<close>

definition initialized :: jsval where
  "initialized = JObj [(''components'', JObj [(''ObjectView'', JObj [])])]"

definition uninitialized :: jsval where
  "uninitialized = JObj []"

definition with_openmct :: "jsval \<Rightarrow> scope" where
  "with_openmct v = [''openmct'' \<mapsto> v]"

definition ready_at_call :: "nat \<Rightarrow> scope" where
  "ready_at_call t = with_openmct initialized"

definition never_ready :: "nat \<Rightarrow> scope" where
  "never_ready t = with_openmct uninitialized"

definition ready_after :: "nat \<Rightarrow> nat \<Rightarrow> scope" where
  "ready_after t0 t = with_openmct (if t < t0 then uninitialized else initialized)"

definition components_only :: "nat \<Rightarrow> scope" where
  "components_only t = with_openmct (JObj [(''components'', JObj [])])"

definition components_null :: "nat \<Rightarrow> scope" where
  "components_null t = with_openmct (JObj [(''components'', JNull)])"


definition not_created :: "nat \<Rightarrow> scope" where
  "not_created t = with_openmct JUndefined"

definition torn_down :: "nat \<Rightarrow> scope" where
  "torn_down t = with_openmct (if t < 50 then uninitialized else JNull)"

definition torn_down_later :: "nat \<Rightarrow> scope" where
  "torn_down_later t = with_openmct (if t < 100 then uninitialized else JNull)"

text \<open>
  A caller whose \<open>signal.aborted\<close> becomes true 60 ms after the call; \<open>openmct\<close> is \<open>{}\<close>
  throughout.
\<close>

definition aborted_at_60 :: "nat \<Rightarrow> scope" where
  "aborted_at_60 t =
     [''openmct'' \<mapsto> uninitialized, ''signal'' \<mapsto> JObj [(''aborted'', JBool (60 \<le> t))]]"

section \<open>How a wait runs\<close>

lemma poll_time_0: "poll_time 0 = 0"
  by (simp add: poll_time_def)

lemma poll_time_Suc: "poll_time (Suc k) = poll_time k + 50"
  by (simp add: poll_time_def)

lemma start_false: "seen world 0 = Inr False \<Longrightarrow> start world = polling world 0"
  by (simp add: seen_def poll_time_0 start_def new_Promise_def initial_def
      checkInitialization_def setTimeout_def polling_def)

lemma start_true: "seen world 0 = Inr True \<Longrightarrow> start world = satisfied world 0"
  by (simp add: seen_def poll_time_0 start_def new_Promise_def initial_def
      checkInitialization_def resolve_def satisfied_def)

lemma start_throw: "seen world 0 = Inl e \<Longrightarrow> start world = rejected world e"
  by (simp add: seen_def poll_time_0 start_def new_Promise_def initial_def
      checkInitialization_def reject_def rejected_def)

lemma event_false:
  "seen world (Suc k) = Inr False \<Longrightarrow> timer_event world (polling world k) = polling world (Suc k)"
  by (simp add: seen_def poll_time_Suc timer_event_def checkInitialization_def setTimeout_def
      polling_def)

lemma event_true:
  "seen world (Suc k) = Inr True \<Longrightarrow> timer_event world (polling world k) = satisfied world (Suc k)"
  by (simp add: seen_def poll_time_Suc timer_event_def checkInitialization_def resolve_def
      polling_def satisfied_def)

lemma event_throw:
  "seen world (Suc k) = Inl e \<Longrightarrow> timer_event world (polling world k) = stranded world (Suc k) e"
  by (simp add: seen_def poll_time_Suc timer_event_def checkInitialization_def polling_def
      stranded_def)

lemma event_idle: "timers s = [] \<Longrightarrow> timer_event world s = s"
  by (simp add: timer_event_def)

lemma await_settled: "promise s \<noteq> Pending \<Longrightarrow> await_promise world s = Some s"
  by (simp add: await_promise.simps)

lemma await_polling:
  "await_promise world (polling world k) = await_promise world (timer_event world (polling world k))"
  by (subst await_promise.simps) (simp add: polling_def)

lemma await_stranded: "await_promise world (stranded world k e) = None"
  by (subst await_promise.simps) (simp add: stranded_def)

lemma await_satisfied: "await_promise world (satisfied world k) = Some (satisfied world k)"
  by (rule await_settled) (simp add: satisfied_def)

lemma await_reaches:
  "(\<forall>i. k < i \<and> i < k + d + 1 \<longrightarrow> seen world i = Inr False) \<Longrightarrow>
   seen world (k + d + 1) = Inr True \<Longrightarrow>
   await_promise world (polling world k) = Some (satisfied world (k + d + 1))"
proof (induction d arbitrary: k)
  case 0
  then show ?case
    by (simp add: await_polling event_true await_satisfied)
next
  case (Suc d)
  have f: "seen world (Suc k) = Inr False"
    using Suc.prems(1) by simp
  have "await_promise world (polling world (Suc k)) = Some (satisfied world (Suc k + d + 1))"
  proof (rule Suc.IH)
    show "\<forall>i. Suc k < i \<and> i < Suc k + d + 1 \<longrightarrow> seen world i = Inr False"
      using Suc.prems(1) by simp
    show "seen world (Suc k + d + 1) = Inr True"
      using Suc.prems(2) by simp
  qed
  then show ?case
    by (simp add: await_polling event_false [OF f])
qed

lemma await_strands:
  "(\<forall>i. k < i \<and> i < k + d + 1 \<longrightarrow> seen world i = Inr False) \<Longrightarrow>
   seen world (k + d + 1) = Inl e \<Longrightarrow>
   await_promise world (polling world k) = None"
proof (induction d arbitrary: k)
  case 0
  then show ?case
    by (simp add: await_polling event_throw await_stranded)
next
  case (Suc d)
  have f: "seen world (Suc k) = Inr False"
    using Suc.prems(1) by simp
  have "await_promise world (polling world (Suc k)) = None"
  proof (rule Suc.IH)
    show "\<forall>i. Suc k < i \<and> i < Suc k + d + 1 \<longrightarrow> seen world i = Inr False"
      using Suc.prems(1) by simp
    show "seen world (Suc k + d + 1) = Inl e"
      using Suc.prems(2) by simp
  qed
  then show ?case
    by (simp add: await_polling event_false [OF f])
qed

lemma await_never_aux:
  assumes run: "await_promise w s = Some y"
  shows "\<not> (\<exists>k. s = polling w k \<and> (\<forall>i. k < i \<longrightarrow> seen w i = Inr False))"
proof (rule await_promise.raw_induct
    [where P = "\<lambda>w s y. \<not> (\<exists>k. s = polling w k \<and> (\<forall>i. k < i \<longrightarrow> seen w i = Inr False))",
     OF _ run], goal_cases)
  case (1 f w s y)
  show ?case
  proof
    assume "\<exists>k. s = polling w k \<and> (\<forall>i. k < i \<longrightarrow> seen w i = Inr False)"
    then obtain k where s: "s = polling w k"
      and fa: "\<forall>i. k < i \<longrightarrow> seen w i = Inr False" by blast
    from fa have next_false: "seen w (Suc k) = Inr False"
      by simp
    from fa have later: "\<forall>i. Suc k < i \<longrightarrow> seen w i = Inr False"
      by simp
    have pend: "promise (polling w k) = Pending" "timers (polling w k) \<noteq> []"
      by (simp_all add: polling_def)
    have "f w (timer_event w (polling w k)) = Some y"
      using "1"(2) pend unfolding s by simp
    then have "f w (polling w (Suc k)) = Some y"
      by (simp only: event_false [OF next_false])
    then have "\<not> (\<exists>k'. polling w (Suc k) = polling w k' \<and> (\<forall>i. k' < i \<longrightarrow> seen w i = Inr False))"
      by (rule "1"(1))
    with later show False
      by blast
  qed
qed

lemma await_never:
  "(\<forall>i. k < i \<longrightarrow> seen world i = Inr False) \<Longrightarrow> await_promise world (polling world k) = None"
  using await_never_aux [of world "polling world k"] by (cases "await_promise world (polling world k)") auto

lemma turns_polling:
  "(\<forall>i. k < i \<and> i \<le> k + n \<longrightarrow> seen world i = Inr False) \<Longrightarrow>
   turns world n (polling world k) = polling world (k + n)"
proof (induction n arbitrary: k)
  case 0
  then show ?case by simp
next
  case (Suc n)
  have f: "seen world (Suc k) = Inr False"
    using Suc.prems by simp
  have "turns world n (polling world (Suc k)) = polling world (Suc k + n)"
    by (rule Suc.IH) (use Suc.prems in simp)
  then show ?case
    by (simp add: event_false [OF f])
qed


lemma turns_idle: "timers s = [] \<Longrightarrow> turns world n s = s"
  by (induction n) (simp_all add: event_idle)

lemma turns_add: "turns world (n + m) s = turns world m (turns world n s)"
  by (induction n arbitrary: s) simp_all

lemma turns_Suc_end: "turns world (Suc n) s = timer_event world (turns world n s)"
  by (induction n arbitrary: s) simp_all

lemma first_poll_cases:
  "(\<forall>i. seen world i = Inr False) \<or>
   (\<exists>k. (\<forall>i<k. seen world i = Inr False) \<and> seen world k \<noteq> Inr False)"
proof (cases "\<exists>k. seen world k \<noteq> Inr False")
  case True
  then have "\<exists>k. seen world k \<noteq> Inr False \<and> (\<forall>i<k. \<not> seen world i \<noteq> Inr False)"
    by (subst (asm) exists_least_iff)
  then show ?thesis by auto
next
  case False
  then show ?thesis by simp
qed

lemma not_false_cases:
  "r \<noteq> Inr False \<Longrightarrow> r = Inr True \<or> (\<exists>e. r = Inl e)" for r :: "error + bool"
  by (cases r) auto

lemma wait_never: "\<forall>i. seen world i = Inr False \<Longrightarrow> wait world = None"
  by (simp add: wait_def start_false await_never)

lemma wait_satisfied:
  assumes "\<forall>i<k. seen world i = Inr False" and "seen world k = Inr True"
  shows "wait world = Some (satisfied world k)"
proof (cases k)
  case 0
  with assms show ?thesis
    by (simp add: wait_def start_true await_satisfied)
next
  case (Suc d)
  have "await_promise world (polling world 0) = Some (satisfied world (0 + d + 1))"
    by (rule await_reaches) (use assms Suc in simp_all)
  with assms Suc show ?thesis
    by (simp add: wait_def start_false)
qed

lemma wait_rejected: "seen world 0 = Inl e \<Longrightarrow> wait world = Some (rejected world e)"
  by (simp add: wait_def start_throw await_settled rejected_def)

lemma wait_stranded:
  assumes "\<forall>i<k. seen world i = Inr False" and "seen world k = Inl e" and "0 < k"
  shows "wait world = None"
proof -
  obtain d where d: "k = Suc d"
    using assms(3) by (cases k) auto
  have "await_promise world (polling world 0) = None"
    by (rule await_strands [where d = d and e = e]) (use assms d in simp_all)
  with assms d show ?thesis
    by (simp add: wait_def start_false)
qed

lemma turns_start_polling:
  assumes "\<forall>i\<le>n. seen world i = Inr False"
  shows "turns world n (start world) = polling world n"
proof -
  have "turns world n (polling world 0) = polling world (0 + n)"
    by (rule turns_polling) (use assms in simp)
  with assms show ?thesis
    by (simp add: start_false)
qed

lemma turns_start_satisfied:
  assumes "\<forall>i<k. seen world i = Inr False" and "seen world k = Inr True" and "k \<le> n"
  shows "turns world n (start world) = satisfied world k"
proof -
  have idle: "turns world m (satisfied world k) = satisfied world k" for m
    by (rule turns_idle) (simp add: satisfied_def)
  have at_k: "turns world k (start world) = satisfied world k"
  proof (cases k)
    case 0
    with assms show ?thesis by (simp add: start_true)
  next
    case (Suc d)
    have p: "turns world d (start world) = polling world d"
      by (rule turns_start_polling) (use assms Suc in simp)
    have t: "seen world (Suc d) = Inr True"
      using assms(2) Suc by simp
    have "turns world (Suc d) (start world) = satisfied world (Suc d)"
      by (simp only: turns_Suc_end p event_true [OF t])
    then show ?thesis
      using Suc by simp
  qed
  obtain m where m: "n = k + m"
    using assms(3) le_Suc_ex by blast
  show ?thesis
    by (simp only: m turns_add at_k idle)
qed

lemma turns_start_stranded:
  assumes "\<forall>i<k. seen world i = Inr False" and "seen world k = Inl e" and "0 < k" and "k \<le> n"
  shows "turns world n (start world) = stranded world k e"
proof -
  have idle: "turns world m (stranded world k e) = stranded world k e" for m
    by (rule turns_idle) (simp add: stranded_def)
  obtain d where d: "k = Suc d"
    using assms(3) by (cases k) auto
  have p: "turns world d (start world) = polling world d"
    by (rule turns_start_polling) (use assms d in simp)
  have t: "seen world (Suc d) = Inl e"
    using assms(2) d by simp
  have "turns world (Suc d) (start world) = stranded world (Suc d) e"
    by (simp only: turns_Suc_end p event_throw [OF t])
  then have at_k: "turns world k (start world) = stranded world k e"
    using d by simp
  obtain m where m: "n = k + m"
    using assms(4) le_Suc_ex by blast
  show ?thesis
    by (simp only: m turns_add at_k idle)
qed



lemma first_not_false_upto:
  assumes "\<not> (\<forall>i\<le>n. seen world i = Inr False)"
  obtains k where "k \<le> n" and "\<forall>i<k. seen world i = Inr False" and "seen world k \<noteq> Inr False"
proof -
  define P where "P k \<longleftrightarrow> k \<le> n \<and> seen world k \<noteq> Inr False" for k
  from assms have "\<exists>k. P k"
    by (auto simp: P_def)
  then have "\<exists>k. P k \<and> (\<forall>i<k. \<not> P i)"
    by (subst (asm) exists_least_iff)
  then obtain k where k: "P k" and least: "\<forall>i<k. \<not> P i"
    by blast
  have before: "\<forall>i<k. seen world i = Inr False"
  proof (intro allI impI)
    fix i assume "i < k"
    moreover from k have "k \<le> n" by (simp add: P_def)
    ultimately have "i \<le> n" "\<not> P i" using least by simp_all
    then show "seen world i = Inr False" by (simp add: P_def)
  qed
  from k have kn: "k \<le> n" and nf: "seen world k \<noteq> Inr False"
    by (simp_all add: P_def)
  show thesis
    by (rule that [OF kn before nf])
qed


section \<open>Environments used below\<close>

lemmas condition_simps =
  condition_def openmct_components_def get_var_def with_openmct_def

lemma seen_never_ready: "seen never_ready i = Inr False"
  by (simp add: seen_def never_ready_def uninitialized_def condition_simps)

lemma seen_aborted_at_60: "seen aborted_at_60 i = Inr False"
  by (simp add: seen_def aborted_at_60_def uninitialized_def condition_simps)

lemma seen_components_only: "seen components_only i = Inr False"
  by (simp add: seen_def components_only_def condition_simps)

lemma seen_components_null: "seen components_null i = Inr False"
  by (simp add: seen_def components_null_def condition_simps)


lemma seen_ready_at_call: "seen ready_at_call i = Inr True"
  by (simp add: seen_def ready_at_call_def initialized_def condition_simps)

lemma seen_not_created: "seen not_created i = Inl TypeError"
  by (simp add: seen_def not_created_def condition_simps)

lemma seen_ready_after_100:
  "seen (ready_after 100) i = (if i < 2 then Inr False else Inr True)"
  by (simp add: seen_def poll_time_def ready_after_def initialized_def uninitialized_def condition_simps)

lemma seen_torn_down:
  "seen torn_down i = (if i < 1 then Inr False else Inl TypeError)"
  by (simp add: seen_def poll_time_def torn_down_def uninitialized_def condition_simps)

lemma seen_torn_down_later:
  "seen torn_down_later i = (if i < 2 then Inr False else Inl TypeError)"
  by (simp add: seen_def poll_time_def torn_down_later_def uninitialized_def condition_simps)

lemma seen_0: "seen world 0 = condition (world 0)"
  by (simp add: seen_def poll_time_def)

section \<open>Properties of the wait\<close>

subsection \<open>Condition never true\<close>

text \<open>
  C1 says that a wait whose condition never becomes true resolves as timed out, between
  \<open>timeoutMs\<close> and \<open>timeoutMs + pollIntervalMs\<close> after the call. The snippet has no
  deadline. With \<open>openmct = {}\<close> for ever, the \<open>await\<close> never returns, at any time.
\<close>

theorem C1_counterexample: "wait never_ready = None"
  by (rule wait_never) (simp add: seen_never_ready)

text \<open>
  C1, as the code has it: when every evaluation of the condition is false, the wait never
  returns; after any number of turns of the event loop the promise is still pending. There is
  no timed-out outcome.
\<close>

theorem never_true_never_resolves:
  assumes "\<forall>i. seen world i = Inr False"
  shows "wait world = None \<and> (\<forall>n. promise (turns world n (start world)) = Pending)"
proof
  show "wait world = None"
    by (rule wait_never [OF assms])
  show "\<forall>n. promise (turns world n (start world)) = Pending"
  proof
    fix n
    have "turns world n (start world) = polling world n"
      by (rule turns_start_polling) (simp add: assms)
    then show "promise (turns world n (start world)) = Pending"
      by (simp add: polling_def)
  qed
qed

theorem never_true_never_resolves_witness:
  "(\<forall>i. seen components_only i = Inr False) \<and> wait components_only = None
     \<and> (\<forall>n. promise (turns components_only n (start components_only)) = Pending)"
  using never_true_never_resolves [of components_only] by (simp add: seen_components_only)

subsection \<open>Termination\<close>

text \<open>
  C2 says that every wait terminates. With \<open>openmct = {components: null}\<close> for ever the
  loop sets a new timer at every poll and the \<open>await\<close> never returns.
\<close>

theorem C2_counterexample: "wait components_null = None"
  by (rule wait_never) (simp add: seen_components_null)

text \<open>
  C2, as the code has it: the wait returns exactly when some evaluation of the condition is
  true and all the earlier ones are false, or when the first evaluation throws. Nothing else
  ends the recursive \<open>setTimeout\<close>.
\<close>

theorem wait_returns_iff:
  "(\<exists>s. wait world = Some s) \<longleftrightarrow>
     (\<exists>k. (\<forall>i<k. seen world i = Inr False) \<and> seen world k = Inr True)
       \<or> (\<exists>e. seen world 0 = Inl e)"
proof
  assume "\<exists>s. wait world = Some s"
  then have some: "wait world \<noteq> None" by auto
  show "(\<exists>k. (\<forall>i<k. seen world i = Inr False) \<and> seen world k = Inr True)
       \<or> (\<exists>e. seen world 0 = Inl e)"
  proof (cases "\<forall>i. seen world i = Inr False")
    case True
    with some show ?thesis by (simp add: wait_never)
  next
    case False
    then obtain n where "seen world n \<noteq> Inr False" by blast
    then have "\<not> (\<forall>i\<le>n. seen world i = Inr False)" by blast
    then obtain k where before: "\<forall>i<k. seen world i = Inr False"
      and nf: "seen world k \<noteq> Inr False"
      by (rule first_not_false_upto)
    from nf consider "seen world k = Inr True" | e where "seen world k = Inl e"
      using not_false_cases by blast
    then show ?thesis
    proof cases
      case 1
      with before show ?thesis by blast
    next
      case 2
      show ?thesis
      proof (cases "k = 0")
        case True
        with 2 show ?thesis by blast
      next
        case False
        then have "wait world = None"
          using wait_stranded [OF before 2] by simp
        with some show ?thesis by simp
      qed
    qed
  qed
next
  assume "(\<exists>k. (\<forall>i<k. seen world i = Inr False) \<and> seen world k = Inr True)
       \<or> (\<exists>e. seen world 0 = Inl e)"
  then show "\<exists>s. wait world = Some s"
  proof
    assume "\<exists>k. (\<forall>i<k. seen world i = Inr False) \<and> seen world k = Inr True"
    then obtain k where "\<forall>i<k. seen world i = Inr False" "seen world k = Inr True"
      by blast
    then have "wait world = Some (satisfied world k)"
      by (rule wait_satisfied)
    then show ?thesis by blast
  next
    assume "\<exists>e. seen world 0 = Inl e"
    then obtain e where "seen world 0 = Inl e" by blast
    then have "wait world = Some (rejected world e)"
      by (rule wait_rejected)
    then show ?thesis by blast
  qed
qed

theorem wait_returns_iff_witness:
  "seen (ready_after 100) 0 = Inr False \<and> seen (ready_after 100) 1 = Inr False
     \<and> seen (ready_after 100) 2 = Inr True
     \<and> (\<exists>s. wait (ready_after 100) = Some s)"
proof -
  have a: "\<forall>i<2. seen (ready_after 100) i = Inr False"
    by (simp add: seen_ready_after_100)
  have b: "seen (ready_after 100) 2 = Inr True"
    by (simp add: seen_ready_after_100)
  from a b have "\<exists>k. (\<forall>i<k. seen (ready_after 100) i = Inr False)
      \<and> seen (ready_after 100) k = Inr True"
    by blast
  then have "\<exists>s. wait (ready_after 100) = Some s"
    using wait_returns_iff [of "ready_after 100"] by blast
  with b show ?thesis by (simp add: seen_ready_after_100)
qed

subsection \<open>Condition true at the call\<close>

text \<open>
  C3: when the condition is true at the call, the promise is fulfilled by the executor itself:
  the caller continues with the state the call left, after one evaluation, at time 0, with no
  timer ever set.
\<close>

theorem true_at_call_one_evaluation:
  assumes "condition (world 0) = Inr True"
  shows "wait world = Some (start world) \<and> promise (start world) = Fulfilled
     \<and> evals (start world) = 1 \<and> now (start world) = 0 \<and> timers (start world) = []"
proof -
  have t: "seen world 0 = Inr True"
    using assms by (simp add: seen_0)
  have s: "start world = satisfied world 0"
    by (rule start_true [OF t])
  have "wait world = Some (satisfied world 0)"
    by (rule wait_satisfied) (simp_all add: t)
  then show ?thesis
    by (simp add: s satisfied_def poll_time_0)
qed

theorem true_at_call_one_evaluation_witness:
  "condition (ready_at_call 0) = Inr True \<and> wait ready_at_call = Some (start ready_at_call)
     \<and> promise (start ready_at_call) = Fulfilled \<and> evals (start ready_at_call) = 1
     \<and> now (start ready_at_call) = 0 \<and> timers (start ready_at_call) = []"
proof -
  have c: "condition (ready_at_call 0) = Inr True"
    by (simp add: ready_at_call_def initialized_def condition_simps)
  show ?thesis
    using c true_at_call_one_evaluation [of ready_at_call] by simp
qed

subsection \<open>Number of evaluations\<close>

text \<open>
  C5: when the condition is false on the evaluations \<open>0, \<dots>, k - 1\<close> and true on
  evaluation \<open>k\<close>, the wait returns the state reached after \<open>k\<close> timer events, fulfilled,
  at \<open>50 * k\<close> ms. The number of evaluations after \<open>n\<close> turns of the event loop is
  \<open>min n k + 1\<close>: one per turn up to the true one, \<open>k + 1\<close> in all, and none afterwards.
\<close>

theorem true_after_k_false_evaluations:
  assumes "\<forall>i<k. seen world i = Inr False" and "seen world k = Inr True"
  shows "wait world = Some (turns world k (start world))
     \<and> promise (turns world k (start world)) = Fulfilled
     \<and> now (turns world k (start world)) = 50 * k
     \<and> evals (turns world n (start world)) = min n k + 1"
proof -
  have at_k: "turns world k (start world) = satisfied world k"
    by (rule turns_start_satisfied [OF assms]) simp
  have w: "wait world = Some (satisfied world k)"
    by (rule wait_satisfied [OF assms])
  have ev: "evals (turns world n (start world)) = min n k + 1"
  proof (cases "n < k")
    case True
    have "turns world n (start world) = polling world n"
      by (rule turns_start_polling) (use assms(1) True in simp)
    with True show ?thesis
      by (simp add: polling_def)
  next
    case False
    then have "k \<le> n" by simp
    then have "turns world n (start world) = satisfied world k"
      by (rule turns_start_satisfied [OF assms])
    with False show ?thesis
      by (simp add: satisfied_def)
  qed
  show ?thesis
    by (simp add: at_k w ev) (simp add: satisfied_def poll_time_def)
qed

theorem true_after_k_false_evaluations_witness:
  "seen (ready_after 100) 0 = Inr False \<and> seen (ready_after 100) 1 = Inr False
     \<and> seen (ready_after 100) 2 = Inr True
     \<and> wait (ready_after 100) = Some (turns (ready_after 100) 2 (start (ready_after 100)))
     \<and> promise (turns (ready_after 100) 2 (start (ready_after 100))) = Fulfilled
     \<and> now (turns (ready_after 100) 2 (start (ready_after 100))) = 100
     \<and> evals (turns (ready_after 100) 7 (start (ready_after 100))) = 3"
proof -
  have a: "\<forall>i<2. seen (ready_after 100) i = Inr False"
    by (simp add: seen_ready_after_100)
  have b: "seen (ready_after 100) 2 = Inr True"
    by (simp add: seen_ready_after_100)
  show ?thesis
    using b true_after_k_false_evaluations [OF a b, of 7]
    by (simp add: seen_ready_after_100)
qed

subsection \<open>A throwing condition\<close>

text \<open>
  C6 says that a throwing condition aborts the wait with the error. When \<open>openmct\<close> is
  \<open>{}\<close> at the call and \<open>null\<close> from 50 ms on, the second evaluation throws a
  \<open>TypeError\<close> inside the timer callback: the error is uncaught, the promise stays
  pending, and the \<open>await\<close> never returns.
\<close>

theorem C6_counterexample:
  "wait torn_down = None
     \<and> promise (turns torn_down 1 (start torn_down)) = Pending
     \<and> uncaught (turns torn_down 1 (start torn_down)) = [TypeError]"
proof -
  have a: "\<forall>i<1. seen torn_down i = Inr False"
    by (simp add: seen_torn_down)
  have b: "seen torn_down 1 = Inl TypeError"
    by (simp add: seen_torn_down)
  have "wait torn_down = None"
    by (rule wait_stranded [OF a b]) simp
  moreover have "turns torn_down 1 (start torn_down) = stranded torn_down 1 TypeError"
    by (rule turns_start_stranded [OF a b]) simp_all
  ultimately show ?thesis
    by (simp add: stranded_def)
qed

text \<open>
  C6, as the code has it. Let the condition throw \<open>e\<close> on evaluation \<open>k\<close>, after false
  evaluations. If \<open>k = 0\<close> the throw is inside the executor: the wait returns at once with
  the promise rejected with \<open>e\<close>, after that one evaluation. If \<open>k > 0\<close> the throw is
  inside a timer callback: the wait never returns; from then on the promise is pending,
  \<open>e\<close> is the one uncaught error, no timer is left and the condition is not evaluated
  again (\<open>k + 1\<close> evaluations).
\<close>

theorem throwing_condition:
  assumes "\<forall>i<k. seen world i = Inr False" and "seen world k = Inl e"
  shows "(k = 0 \<longrightarrow> wait world = Some (start world) \<and> promise (start world) = Rejected e
            \<and> evals (start world) = 1 \<and> timers (start world) = [])
     \<and> (0 < k \<longrightarrow> wait world = None
            \<and> (\<forall>n\<ge>k. promise (turns world n (start world)) = Pending
                  \<and> uncaught (turns world n (start world)) = [e]
                  \<and> evals (turns world n (start world)) = k + 1
                  \<and> timers (turns world n (start world)) = []))"
proof (intro conjI impI)
  assume z: "k = 0"
  with assms(2) have t: "seen world 0 = Inl e" by simp
  have s: "start world = rejected world e"
    by (rule start_throw [OF t])
  have w: "wait world = Some (rejected world e)"
    by (rule wait_rejected [OF t])
  show "wait world = Some (start world)" by (simp add: w s)
  show "promise (start world) = Rejected e" by (simp add: s rejected_def)
  show "evals (start world) = 1" by (simp add: s rejected_def)
  show "timers (start world) = []" by (simp add: s rejected_def)
next
  assume pos: "0 < k"
  show "wait world = None"
    by (rule wait_stranded [OF assms pos])
  show "\<forall>n\<ge>k. promise (turns world n (start world)) = Pending
                  \<and> uncaught (turns world n (start world)) = [e]
                  \<and> evals (turns world n (start world)) = k + 1
                  \<and> timers (turns world n (start world)) = []"
  proof (intro allI impI)
    fix n assume "k \<le> n"
    then have "turns world n (start world) = stranded world k e"
      by (rule turns_start_stranded [OF assms pos])
    then show "promise (turns world n (start world)) = Pending
                  \<and> uncaught (turns world n (start world)) = [e]
                  \<and> evals (turns world n (start world)) = k + 1
                  \<and> timers (turns world n (start world)) = []"
      by (simp add: stranded_def)
  qed
qed

theorem throwing_condition_witness:
  "seen not_created 0 = Inl TypeError
     \<and> wait not_created = Some (start not_created)
     \<and> promise (start not_created) = Rejected TypeError
     \<and> evals (start not_created) = 1
     \<and> seen torn_down_later 0 = Inr False \<and> seen torn_down_later 1 = Inr False
     \<and> seen torn_down_later 2 = Inl TypeError
     \<and> wait torn_down_later = None
     \<and> uncaught (turns torn_down_later 5 (start torn_down_later)) = [TypeError]
     \<and> evals (turns torn_down_later 5 (start torn_down_later)) = 3"
proof -
  have a0: "\<forall>i<0. seen not_created i = Inr False" by simp
  have b0: "seen not_created 0 = Inl TypeError" by (rule seen_not_created)
  have a: "\<forall>i<2. seen torn_down_later i = Inr False"
    by (simp add: seen_torn_down_later)
  have b: "seen torn_down_later 2 = Inl TypeError"
    by (simp add: seen_torn_down_later)
  show ?thesis
    using b b0 throwing_condition [OF a0 b0] throwing_condition [OF a b]
    by (simp add: seen_torn_down_later)
qed

subsection \<open>Cancellation\<close>

text \<open>
  C7 says that raising the cancellation signal before the condition is true ends the wait as
  cancelled, with no evaluation afterwards. The snippet reads no signal and drops the id of
  every timer it sets, so its run depends on \<open>openmct\<close> alone. With \<open>openmct = {}\<close> and
  a \<open>signal\<close> in scope that is aborted from 60 ms on, the third timer event at 150 ms
  evaluates the condition a fourth time, leaves the promise pending and sets the timer for
  200 ms.
\<close>

theorem C7_counterexample:
  "aborted_at_60 100 ''signal'' = Some (JObj [(''aborted'', JBool True)])
     \<and> promise (turns aborted_at_60 3 (start aborted_at_60)) = Pending
     \<and> now (turns aborted_at_60 3 (start aborted_at_60)) = 150
     \<and> evals (turns aborted_at_60 3 (start aborted_at_60)) = 4
     \<and> timers (turns aborted_at_60 3 (start aborted_at_60)) = [200]"
proof -
  have "turns aborted_at_60 3 (start aborted_at_60) = polling aborted_at_60 3"
    by (rule turns_start_polling) (simp add: seen_aborted_at_60)
  then show ?thesis
    by (simp add: polling_def poll_time_def) (simp add: aborted_at_60_def)
qed

text \<open>
  C7, as the code has it: nothing but the condition stops the polling. As long as the
  evaluations \<open>0, \<dots>, n\<close> are false, after \<open>n\<close> timer events the promise is pending,
  the clock is at \<open>50 * n\<close> ms, the condition has been evaluated \<open>n + 1\<close> times and the
  next timer is set.
\<close>

theorem polling_goes_on_while_false:
  assumes "\<forall>i\<le>n. seen world i = Inr False"
  shows "promise (turns world n (start world)) = Pending
     \<and> now (turns world n (start world)) = 50 * n
     \<and> evals (turns world n (start world)) = n + 1
     \<and> timers (turns world n (start world)) = [50 * n + 50]"
proof -
  have "turns world n (start world) = polling world n"
    by (rule turns_start_polling [OF assms])
  then show ?thesis
    by (simp add: polling_def poll_time_def)
qed

theorem polling_goes_on_while_false_witness:
  "seen (ready_after 100) 0 = Inr False \<and> seen (ready_after 100) 1 = Inr False
     \<and> promise (turns (ready_after 100) 1 (start (ready_after 100))) = Pending
     \<and> now (turns (ready_after 100) 1 (start (ready_after 100))) = 50
     \<and> evals (turns (ready_after 100) 1 (start (ready_after 100))) = 2
     \<and> timers (turns (ready_after 100) 1 (start (ready_after 100))) = [100]"
proof -
  have a: "\<forall>i\<le>1. seen (ready_after 100) i = Inr False"
    by (simp add: seen_ready_after_100)
  show ?thesis
    using polling_goes_on_while_false [OF a] by (simp add: seen_ready_after_100)
qed

subsection \<open>One outcome\<close>




subsection \<open>Frame\<close>

text \<open>
  What one call of \<open>checkInitialization\<close> touches: it leaves every variable in scope, the
  clock and the uncaught errors as they were, evaluates the condition once, sets at most one
  timer, 50 ms ahead, and at most fulfils the promise.
\<close>

lemma checkInitialization_call:
  "vars (snd (checkInitialization s)) = vars s
     \<and> now (snd (checkInitialization s)) = now s
     \<and> uncaught (snd (checkInitialization s)) = uncaught s
     \<and> evals (snd (checkInitialization s)) = evals s + 1
     \<and> (timers (snd (checkInitialization s)) = timers s
          \<or> timers (snd (checkInitialization s)) = timers s @ [now s + 50])
     \<and> (promise (snd (checkInitialization s)) = promise s
          \<or> promise (snd (checkInitialization s)) = Fulfilled)"
  by (simp add: checkInitialization_def resolve_def setTimeout_def Let_def
      split: sum.split bool.split)




subsection \<open>Soundness of the fulfilled outcome\<close>

text \<open>
  C10: when the wait returns with the promise fulfilled, the condition is true of the
  variables as the caller finds them: the state is the one left by the evaluation \<open>k\<close> that was true,
  the last of \<open>k + 1\<close> evaluations.
\<close>

theorem fulfilled_only_after_true:
  assumes "wait world = Some s" and "promise s = Fulfilled"
  shows "condition (vars s) = Inr True
     \<and> (\<exists>k. s = turns world k (start world) \<and> seen world k = Inr True \<and> evals s = k + 1)"
proof -
  have ret: "\<exists>s. wait world = Some s"
    using assms(1) by blast
  have "\<not> (\<forall>i. seen world i = Inr False)"
    using assms(1) wait_never [of world] by auto
  then obtain n where "seen world n \<noteq> Inr False" by blast
  then have "\<not> (\<forall>i\<le>n. seen world i = Inr False)" by blast
  then obtain k where before: "\<forall>i<k. seen world i = Inr False"
    and nf: "seen world k \<noteq> Inr False"
    by (rule first_not_false_upto)
  from nf consider "seen world k = Inr True" | e where "seen world k = Inl e"
    using not_false_cases by blast
  then show ?thesis
  proof cases
    case 1
    have "wait world = Some (satisfied world k)"
      by (rule wait_satisfied [OF before 1])
    with assms(1) have s: "s = satisfied world k" by simp
    have t: "turns world k (start world) = satisfied world k"
      by (rule turns_start_satisfied [OF before 1]) simp
    have c: "condition (vars s) = Inr True"
      using 1 by (simp add: s satisfied_def seen_def)
    have "s = turns world k (start world) \<and> seen world k = Inr True \<and> evals s = k + 1"
      using 1 by (simp add: t s) (simp add: satisfied_def)
    with c show ?thesis by blast
  next
    case 2
    show ?thesis
    proof (cases "k = 0")
      case True
      with 2 have "wait world = Some (rejected world e)"
        using wait_rejected [of world e] by simp
      with assms(1) have "s = rejected world e" by simp
      then have "promise s = Rejected e" by (simp add: rejected_def)
      with assms(2) show ?thesis by simp
    next
      case False
      then have "wait world = None"
        using wait_stranded [OF before 2] by simp
      with assms(1) show ?thesis by simp
    qed
  qed
qed

theorem fulfilled_only_after_true_witness:
  "wait ready_at_call = Some (start ready_at_call) \<and> promise (start ready_at_call) = Fulfilled
     \<and> condition (vars (start ready_at_call)) = Inr True"
proof -
  have t: "seen ready_at_call 0 = Inr True"
    by (rule seen_ready_at_call)
  have s: "start ready_at_call = satisfied ready_at_call 0"
    by (rule start_true [OF t])
  have a: "wait ready_at_call = Some (start ready_at_call)"
    using wait_satisfied [of 0 ready_at_call] t s by simp
  have b: "promise (start ready_at_call) = Fulfilled"
    by (simp add: s satisfied_def)
  show ?thesis
    using a b fulfilled_only_after_true [OF a b] by simp
qed

end
